theory Spec2Isabelle
  imports Main "HOL-Library.Sublist"
begin

unbundle bit_operations_syntax

section \<open>JavaScript values\<close>

text \<open>
  The solver is one JavaScript file, \<^verbatim>\<open>solver.js\<close>. The values it handles are the
  strings of locations and codes, the numbers of steps, and whatever \<^verbatim>\<open>JSON.parse\<close>
  returns for the session document. A number is a double: a finite one is
  \<open>m * 2 ^ e\<close>; only its being zero matters below (truthiness).
\<close>

datatype js_number = Finite int int | Infinity bool | NaN

datatype js_value =
    Undefined
  | Null
  | Bool bool
  | Num js_number
  | Str string
  | Arr "js_value list"
  | Obj "(string \<times> js_value) list"

datatype error = TypeError | SyntaxError

text \<open>\<^verbatim>\<open>ToBoolean\<close>: what \<^verbatim>\<open>a || b\<close> tests.\<close>

fun truthy :: "js_value \<Rightarrow> bool" where
  "truthy Undefined = False"
| "truthy Null = False"
| "truthy (Bool b) = b"
| "truthy (Num (Finite m e)) = (m \<noteq> 0)"
| "truthy (Num (Infinity s)) = True"
| "truthy (Num NaN) = False"
| "truthy (Str s) = (s \<noteq> [])"
| "truthy (Arr xs) = True"
| "truthy (Obj kvs) = True"

text \<open>The decimal digits of a number, as \<^verbatim>\<open>String(n)\<close> writes a property key.\<close>

fun toString :: "nat \<Rightarrow> string" where
  "toString n =
     (if n < 10 then [char_of (48 + n)]
      else toString (n div 10) @ [char_of (48 + n mod 10)])"

declare toString.simps [simp del]

text \<open>
  Reading a property. \<^verbatim>\<open>v.codes\<close> and \<^verbatim>\<open>v[i]\<close> throw a TypeError on
  \<^verbatim>\<open>undefined\<close> and \<^verbatim>\<open>null\<close>, and give \<^verbatim>\<open>undefined\<close> where the property is absent.
  An object is the list of its own properties, each key once. A string holds the code
  units below 256, as a binary string does; no function below looks at the characters of
  a code.
\<close>

fun get_codes :: "js_value \<Rightarrow> error + js_value" where
  "get_codes Undefined = Inl TypeError"
| "get_codes Null = Inl TypeError"
| "get_codes (Obj kvs) =
     Inr (case map_of kvs ''codes'' of None \<Rightarrow> Undefined | Some v \<Rightarrow> v)"
| "get_codes v = Inr Undefined"

fun get_index :: "js_value \<Rightarrow> nat \<Rightarrow> error + js_value" where
  "get_index Undefined i = Inl TypeError"
| "get_index Null i = Inl TypeError"
| "get_index (Arr xs) i = Inr (if i < length xs then xs ! i else Undefined)"
| "get_index (Str s) i = Inr (if i < length s then Str [s ! i] else Undefined)"
| "get_index (Obj kvs) i =
     Inr (case map_of kvs (toString i) of None \<Rightarrow> Undefined | Some v \<Rightarrow> v)"
| "get_index v i = Inr Undefined"

text \<open>\<^verbatim>\<open>v.length\<close>.\<close>

fun get_length :: "js_value \<Rightarrow> error + js_value" where
  "get_length Undefined = Inl TypeError"
| "get_length Null = Inl TypeError"
| "get_length (Arr xs) = Inr (Num (Finite (int (length xs)) 0))"
| "get_length (Str s) = Inr (Num (Finite (int (length s)) 0))"
| "get_length (Obj kvs) =
     Inr (case map_of kvs ''length'' of None \<Rightarrow> Undefined | Some v \<Rightarrow> v)"
| "get_length v = Inr Undefined"

text \<open>
  Whether the conversion of a value to a string returns, as a template literal asks
  for it. A value parsed from JSON has no function among its properties: an object with a
  property \<^verbatim>\<open>toString\<close> of its own cannot be converted (a TypeError), any other object
  is \<^verbatim>\<open>[object Object]\<close>, and an array joins the strings of its entries.
\<close>

fun stringifies :: "js_value \<Rightarrow> bool" where
  "stringifies (Arr xs) = (\<forall>x \<in> set xs. stringifies x)"
| "stringifies (Obj kvs) = (map_of kvs ''toString'' = None)"
| "stringifies v = True"

section \<open>Strings of locations\<close>

text \<open>\<^verbatim>\<open>s.includes(sub)\<close>.\<close>

fun includes_str :: "string \<Rightarrow> string \<Rightarrow> bool" where
  "includes_str [] sub = (sub = [])"
| "includes_str (c # cs) sub = (prefix sub (c # cs) \<or> includes_str cs sub)"

declare includes_str.simps [simp del]

definition is_digit :: "char \<Rightarrow> bool" where
  "is_digit c \<longleftrightarrow> 48 \<le> (of_char c :: nat) \<and> (of_char c :: nat) \<le> 57"

text \<open>
  \<^verbatim>\<open>url.match(/step(\d+)/)\<close>: the leftmost place where \<^verbatim>\<open>step\<close> is followed by a
  digit, and the whole run of digits there (the group \<^verbatim>\<open>m[1]\<close>); \<open>None\<close> is the
  \<^verbatim>\<open>null\<close> of no match.
\<close>

fun match_step :: "string \<Rightarrow> string option" where
  "match_step [] = None"
| "match_step (c # cs) =
     (if prefix ''step'' (c # cs) \<and> takeWhile is_digit (drop 4 (c # cs)) \<noteq> []
      then Some (takeWhile is_digit (drop 4 (c # cs)))
      else match_step cs)"

declare match_step.simps [simp del]

text \<open>
  \<^verbatim>\<open>parseInt\<close> of a run of digits. Step numbers are natural numbers here; the double
  that JavaScript computes is the same number below \<open>2 ^ 53\<close>.
\<close>

definition parseInt :: "string \<Rightarrow> nat" where
  "parseInt ds = foldl (\<lambda>n c. 10 * n + (of_char c - 48)) 0 ds"

section \<open>The code repository\<close>

definition XOR_KEY :: string where
  "XOR_KEY = ''WO_2024_CHALLENGE''"

text \<open>
  The platform functions that \<^verbatim>\<open>decrypt\<close> and the session extraction call:
  \<^verbatim>\<open>Buffer.from(s, 'base64').toString('binary')\<close>, which never throws on a string, and
  \<^verbatim>\<open>JSON.parse\<close>, whose SyntaxError is \<open>None\<close>.
\<close>

record platform =
  base64 :: "string \<Rightarrow> string"
  JSON_parse :: "string \<Rightarrow> js_value option"

text \<open>The loop of \<^verbatim>\<open>decrypt\<close> (lines 21 to 23), with its index and its result.\<close>

function decrypt_loop :: "string \<Rightarrow> nat \<Rightarrow> string \<Rightarrow> string" where
  "decrypt_loop decoded i result =
     (if i < length decoded
      then decrypt_loop decoded (i + 1)
             (result @ [char_of ((of_char (decoded ! i) :: nat)
                                  XOR of_char (XOR_KEY ! (i mod length XOR_KEY)))])
      else result)"
  by pat_completeness auto
termination
  by (relation "measure (\<lambda>(decoded, i, result). length decoded - i)") auto

declare decrypt_loop.simps [simp del]

text \<open>\<^verbatim>\<open>decrypt(encoded)\<close>; \<^verbatim>\<open>Buffer.from(null, 'base64')\<close> throws a TypeError.\<close>

definition decrypt :: "platform \<Rightarrow> string option \<Rightarrow> error + string" where
  "decrypt P encoded =
     (case encoded of
        None \<Rightarrow> Inl TypeError
      | Some e \<Rightarrow> Inr (decrypt_loop (base64 P e) 0 []))"

text \<open>
  Lines 64 to 66: \<^verbatim>\<open>JSON.parse(decrypt(sessionData)).codes\<close>, then the console line
  that reads \<^verbatim>\<open>codes.length\<close> into a template literal.
\<close>

definition extract_codes :: "platform \<Rightarrow> string option \<Rightarrow> error + js_value" where
  "extract_codes P sessionData =
     (case decrypt P sessionData of
        Inl e \<Rightarrow> Inl e
      | Inr text \<Rightarrow>
          (case JSON_parse P text of
             None \<Rightarrow> Inl SyntaxError
           | Some doc \<Rightarrow>
               (case get_codes doc of
                  Inl e \<Rightarrow> Inl e
                | Inr codes \<Rightarrow>
                    (case get_length codes of
                       Inl e \<Rightarrow> Inl e
                     | Inr n \<Rightarrow> if stringifies n then Inr codes else Inl TypeError))))"

text \<open>Line 111: \<^verbatim>\<open>codes[step] || codes[29]\<close>.\<close>

definition codeFor :: "js_value \<Rightarrow> nat \<Rightarrow> error + js_value" where
  "codeFor codes step =
     (case get_index codes step of
        Inl e \<Rightarrow> Inl e
      | Inr v \<Rightarrow> if truthy v then Inr v else get_index codes 29)"

section \<open>The run statistics\<close>

text \<open>
  An instant is the number of milliseconds that \<^verbatim>\<open>Date.now()\<close> returns; the ISO text of
  \<^verbatim>\<open>startTime\<close> and \<^verbatim>\<open>endTime\<close> is a rendering of it, and \<^verbatim>\<open>null\<close> is \<open>None\<close>.
  \<open>totalDurationMs\<close> is the difference of instants from which line 209 derives
  \<^verbatim>\<open>totalDurationSeconds\<close> by a division and a rounding to two decimals, which give
  no negative number from one that is not negative.
\<close>

record attempt =
  step :: nat
  code :: js_value
  durationMs :: int
  "method" :: string

record metrics =
  tokenUsage :: nat
  tokenCost :: nat
  apiCalls :: nat
  metrics_note :: string

record runStats =
  startTime :: int
  endTime :: "int option"
  totalDurationMs :: int
  stepsCompleted :: nat
  totalSteps :: nat
  success :: bool
  stepDetails :: "attempt list"
  metrics :: metrics

text \<open>Lines 28 to 42.\<close>

definition initial_runStats :: "int \<Rightarrow> runStats" where
  "initial_runStats now =
     \<lparr>startTime = now, endTime = None, totalDurationMs = 0, stepsCompleted = 0,
      totalSteps = 30, success = False, stepDetails = [],
      metrics = \<lparr>tokenUsage = 0, tokenCost = 0, apiCalls = 0,
                 metrics_note = ''No LLM API used - pure algorithmic solution''\<rparr>\<rparr>"

section \<open>The browser driver\<close>

text \<open>
  The page and the clock are the world \<open>'w\<close> that the solver acts on; a driver gives the
  operations the solver calls, each as a function on the world. A simulated target is a
  driver. Its operations return; the one exception the solver catches, that of
  \<^verbatim>\<open>page.waitForURL\<close> (its timeout, for one), is the \<open>False\<close> of \<open>waitForURL\<close>.

  \<^item> \<open>landing\<close>: lines 51 to 61, from the launch of the browser to the click on START;
  \<^item> \<open>getItem\<close>: \<^verbatim>\<open>sessionStorage.getItem('wo_session')\<close>, \<open>None\<close> for \<^verbatim>\<open>null\<close>;
  \<^item> \<open>url\<close>: \<^verbatim>\<open>page.url()\<close>;
  \<^item> \<open>pushState\<close>: the evaluation of lines 90 to 94;
  \<^item> \<open>dismiss\<close>: the evaluation of lines 115 to 145, with the step number;
  \<^item> \<open>enterCode\<close>: the evaluation of lines 150 to 159, with the code;
  \<^item> \<open>submit\<close>: the evaluation of lines 162 to 166;
  \<^item> \<open>waitForURL\<close>: \<^verbatim>\<open>page.waitForURL\<close> with its predicate and its timeout;
  \<^item> \<open>Date_now\<close>: \<^verbatim>\<open>Date.now()\<close>.
\<close>

record 'w driver =
  landing :: "'w \<Rightarrow> 'w"
  getItem :: "'w \<Rightarrow> string option"
  url :: "'w \<Rightarrow> string"
  waitForTimeout :: "nat \<Rightarrow> 'w \<Rightarrow> 'w"
  pushState :: "'w \<Rightarrow> 'w"
  dismiss :: "nat \<Rightarrow> 'w \<Rightarrow> 'w"
  enterCode :: "js_value \<Rightarrow> 'w \<Rightarrow> 'w"
  submit :: "'w \<Rightarrow> 'w"
  waitForURL :: "(string \<Rightarrow> bool) \<Rightarrow> nat \<Rightarrow> 'w \<Rightarrow> bool \<times> 'w"
  Date_now :: "'w \<Rightarrow> int"

section \<open>The step advancement engine\<close>

text \<open>The variables that the loop of lines 70 to 204 changes.\<close>

record 'w state =
  page :: 'w
  lastStep :: nat
  runStats :: runStats

datatype flow = Next | Break | Throw error

text \<open>\<^verbatim>\<open>runStats.stepDetails.push(r)\<close>.\<close>

definition push :: "attempt \<Rightarrow> 'w state \<Rightarrow> 'w state" where
  "push r s = s\<lparr>runStats := (runStats s)\<lparr>stepDetails := stepDetails (runStats s) @ [r]\<rparr>\<rparr>"

text \<open>\<^verbatim>\<open>m && parseInt(m[1]) > step\<close>, of lines 173 and 187.\<close>

definition advanced :: "nat \<Rightarrow> string \<Rightarrow> bool" where
  "advanced n u = (case match_step u of None \<Rightarrow> False | Some ds \<Rightarrow> n < parseInt ds)"

text \<open>The predicate given to \<^verbatim>\<open>page.waitForURL\<close>, lines 171 to 174.\<close>

definition progressed :: "nat \<Rightarrow> string \<Rightarrow> bool" where
  "progressed n u \<longleftrightarrow> includes_str u ''/finish'' \<or> advanced n u"

text \<open>
  Lines 87 to 109, for step 30: the navigation is pushed, and after 500 ms the location
  is read. \<open>True\<close> is the \<^verbatim>\<open>break\<close> of line 107.
\<close>

definition bypass :: "'w driver \<Rightarrow> int \<Rightarrow> 'w state \<Rightarrow> bool \<times> 'w state" where
  "bypass d stepStartTime s =
     (let w1 = waitForTimeout d 500 (pushState d (page s)) in
      if includes_str (url d w1) ''/finish''
      then (True,
            (push \<lparr>step = 30, code = Str ''N/A (router bypass)'',
                   durationMs = Date_now d w1 - stepStartTime,
                   method = ''history.pushState''\<rparr>
                  (s\<lparr>page := w1\<rparr>))\<lparr>lastStep := 30\<rparr>)
      else (False, s\<lparr>page := w1\<rparr>))"

text \<open>
  Lines 111 to 203: the code is looked up, written into the console line of line 112
  (a template literal), entered and submitted, and progress awaited.
\<close>

definition ordinary ::
  "'w driver \<Rightarrow> js_value \<Rightarrow> nat \<Rightarrow> int \<Rightarrow> 'w state \<Rightarrow> flow \<times> 'w state" where
  "ordinary d codes n stepStartTime s =
     (case codeFor codes n of
        Inl e \<Rightarrow> (Throw e, s)
      | Inr c \<Rightarrow>
          if \<not> stringifies c then (Throw TypeError, s)
          else
          (let w1 = dismiss d n (page s);
               w2 = waitForTimeout d 50 w1;
               w3 = enterCode d c w2;
               w4 = submit d w3;
               resolved = fst (waitForURL d (progressed n) 3500 w4);
               w5 = snd (waitForURL d (progressed n) 3500 w4);
               r = \<lparr>step = n, code = c, durationMs = Date_now d w5 - stepStartTime,
                    method = ''code_submission''\<rparr>
           in if resolved then (Next, push r (s\<lparr>page := w5, lastStep := n\<rparr>))
              else if includes_str (url d w5) ''/finish''
                then (Break, s\<lparr>page := w5, lastStep := 30\<rparr>)
              else if advanced n (url d w5)
                then (Next, push r (s\<lparr>page := w5, lastStep := n\<rparr>))
              else (Next, s\<lparr>page := w5\<rparr>)))"

text \<open>One turn of the loop, lines 71 to 203.\<close>

definition iteration :: "'w driver \<Rightarrow> js_value \<Rightarrow> 'w state \<Rightarrow> flow \<times> 'w state" where
  "iteration d codes s =
     (if includes_str (url d (page s)) ''/finish'' then (Break, s\<lparr>lastStep := 30\<rparr>)
      else
        (case match_step (url d (page s)) of
           None \<Rightarrow> (Next, s\<lparr>page := waitForTimeout d 100 (page s)\<rparr>)
         | Some ds \<Rightarrow>
             (let n = parseInt ds in
              if n \<le> lastStep s then (Next, s\<lparr>page := waitForTimeout d 50 (page s)\<rparr>)
              else
                (let stepStartTime = Date_now d (page s) in
                 if n = 30
                 then (case bypass d stepStartTime s of
                         (True, s') \<Rightarrow> (Break, s')
                       | (False, s') \<Rightarrow> ordinary d codes n stepStartTime s')
                 else ordinary d codes n stepStartTime s))))"

text \<open>
  How the loop of line 70 was left: by its condition, by a \<^verbatim>\<open>break\<close>, or by an
  exception. The number beside it is the number of turns begun.
\<close>

datatype loop_end = Exhausted | Finished | Thrown error

function loop ::
  "'w driver \<Rightarrow> js_value \<Rightarrow> nat \<Rightarrow> 'w state \<Rightarrow> loop_end \<times> nat \<times> 'w state" where
  "loop d codes attempt s =
     (if attempt < 120
      then (case iteration d codes s of
              (Next, s') \<Rightarrow> loop d codes (attempt + 1) s'
            | (Break, s') \<Rightarrow> (Finished, attempt + 1, s')
            | (Throw e, s') \<Rightarrow> (Thrown e, attempt + 1, s'))
      else (Exhausted, attempt, s))"
  by pat_completeness auto
termination
  by (relation "measure (\<lambda>(d, codes, attempt, s). 120 - attempt)") auto

declare loop.simps [simp del]

text \<open>Lines 207 to 211.\<close>

definition finalize :: "'w driver \<Rightarrow> int \<Rightarrow> 'w state \<Rightarrow> runStats" where
  "finalize d started s =
     (runStats s)\<lparr>endTime := Some (Date_now d (page s)),
                  totalDurationMs := Date_now d (page s) - started,
                  stepsCompleted := lastStep s,
                  success := (lastStep s = 30)\<rparr>"

text \<open>
  What a run leaves behind: the exception that ended it, if one did, whether
  \<^verbatim>\<open>output/final_screenshot.png\<close> was taken (line 223), and the statistics written to
  \<^verbatim>\<open>output/run_stats.json\<close> (line 226), if they were.
\<close>

record outcome =
  uncaught :: "error option"
  final_screenshot :: bool
  run_stats_json :: "runStats option"

definition aborted :: "error \<Rightarrow> outcome" where
  "aborted e = \<lparr>uncaught = Some e, final_screenshot = False, run_stats_json = None\<rparr>"

text \<open>
  The body of the asynchronous function, lines 27 to 231. It has no
  \<^verbatim>\<open>try\<close> around the extraction or the loop: an exception there ends it at once.
\<close>

definition main :: "platform \<Rightarrow> 'w driver \<Rightarrow> 'w \<Rightarrow> outcome" where
  "main P d w0 =
     (let started = Date_now d w0;
          w1 = landing d w0
      in case extract_codes P (getItem d w1) of
           Inl e \<Rightarrow> aborted e
         | Inr codes \<Rightarrow>
             (case loop d codes 0
                     \<lparr>page = w1, lastStep = 0, runStats = initial_runStats started\<rparr> of
                (Thrown e, polls, s) \<Rightarrow> aborted e
              | (how, polls, s) \<Rightarrow>
                  \<lparr>uncaught = None, final_screenshot = True,
                   run_stats_json = Some (finalize d started s)\<rparr>))"

text \<open>
  The exit status of the process. \<^verbatim>\<open>solver.js\<close> never calls \<^verbatim>\<open>process.exit\<close> and
  never sets \<^verbatim>\<open>process.exitCode\<close>: Node exits with 0 when the function returns, and
  with 1 when its promise is rejected and nothing handles the rejection.
\<close>

definition exit_status :: "outcome \<Rightarrow> nat" where
  "exit_status out = (case uncaught out of None \<Rightarrow> 0 | Some e \<Rightarrow> 1)"

section \<open>Simulated targets\<close>

text \<open>
  A simulated target has a location, a script of the locations it moves to (one at each
  click on the submit button, none once the script is used up), a switch for whether a
  pushed navigation takes effect, the session blob and a clock. Waiting moves the clock.
\<close>

record sim =
  location :: string
  script :: "string list"
  bypassable :: bool
  session :: "string option"
  clock :: int

definition sim_driver :: "sim driver" where
  "sim_driver =
     \<lparr>landing = (\<lambda>w. w),
      getItem = session,
      url = location,
      waitForTimeout = (\<lambda>ms w. w\<lparr>clock := clock w + int ms\<rparr>),
      pushState = (\<lambda>w. if bypassable w then w\<lparr>location := ''/finish''\<rparr> else w),
      dismiss = (\<lambda>n w. w),
      enterCode = (\<lambda>c w. w),
      submit = (\<lambda>w. case script w of [] \<Rightarrow> w | l # ls \<Rightarrow> w\<lparr>location := l, script := ls\<rparr>),
      waitForURL = (\<lambda>p ms w. if p (location w) then (True, w)
                              else (False, w\<lparr>clock := clock w + int ms\<rparr>)),
      Date_now = clock\<rparr>"

text \<open>
  The session of the simulated targets: a JSON text with three codes, obfuscated with the
  key (the XOR is its own inverse), and a platform that hands the blob through and parses
  that one text.
\<close>

definition sim_text :: string where
  \<open>sim_text = ''{"codes":["A1B2C3","D4E5F6","G7H8I9"]}''\<close>

definition sim_doc :: js_value where
  "sim_doc = Obj [(''codes'', Arr [Str ''A1B2C3'', Str ''D4E5F6'', Str ''G7H8I9''])]"

definition sim_platform :: platform where
  "sim_platform =
     \<lparr>base64 = (\<lambda>s. s),
      JSON_parse = (\<lambda>t. if t = sim_text then Some sim_doc else None)\<rparr>"

definition sim_blob :: string where
  "sim_blob = decrypt_loop sim_text 0 []"

definition sim_world :: "string \<Rightarrow> string list \<Rightarrow> bool \<Rightarrow> sim" where
  "sim_world l ls b =
     \<lparr>location = l, script = ls, bypassable = b, session = Some sim_blob, clock = 0\<rparr>"

section \<open>The vocabulary of the properties\<close>

text \<open>
  A table of codes that the loop can work with: it is neither \<^verbatim>\<open>undefined\<close> nor
  \<^verbatim>\<open>null\<close>, and every value that the lookup gives converts to a string. A list of
  strings is one.
\<close>

definition usable_table :: "js_value \<Rightarrow> bool" where
  "usable_table codes \<longleftrightarrow>
     codes \<noteq> Undefined \<and> codes \<noteq> Null \<and>
     (\<forall>n v. codeFor codes n = Inr v \<longrightarrow> stringifies v)"

text \<open>The log of attempt records that a run wrote, empty when it wrote no statistics.\<close>

definition attempt_log :: "outcome \<Rightarrow> attempt list" where
  "attempt_log out = (case run_stats_json out of None \<Rightarrow> [] | Some r \<Rightarrow> stepDetails r)"

text \<open>The step of the last record of a log, 0 for the empty log.\<close>

definition last_step :: "attempt list \<Rightarrow> nat" where
  "last_step rs = (if rs = [] then 0 else step (last rs))"





text \<open>
  The records of a log are in the order of their steps, and none is beyond the last
  completed step.
\<close>

definition log_ordered :: "'w state \<Rightarrow> bool" where
  "log_ordered s \<longleftrightarrow>
     sorted_wrt (<) (map step (stepDetails (runStats s))) \<and>
     (\<forall>r \<in> set (stepDetails (runStats s)). step r \<le> lastStep s)"

text \<open>The records of a log carry one of the two method tags of the source.\<close>

definition methods_ok :: "'w state \<Rightarrow> bool" where
  "methods_ok s \<longleftrightarrow>
     (\<forall>r \<in> set (stepDetails (runStats s)).
        method r = ''code_submission'' \<or> method r = ''history.pushState'')"


text \<open>The character that the loop of \<^verbatim>\<open>decrypt\<close> appends at index \<open>j\<close>.\<close>

definition xor_at :: "string \<Rightarrow> nat \<Rightarrow> char" where
  "xor_at decoded j =
     char_of ((of_char (decoded ! j) :: nat) XOR of_char (XOR_KEY ! (j mod length XOR_KEY)))"



section \<open>Lemmas\<close>

subsection \<open>The cipher of decrypt is its own inverse\<close>

lemma xor_char_mod:
  "((of_char a :: nat) XOR of_char k) mod 256 = (of_char a :: nat) XOR of_char k"
proof -
  have "take_bit 8 ((of_char a :: nat) XOR of_char k)
        = take_bit 8 (of_char a :: nat) XOR take_bit 8 (of_char k :: nat)"
    by (rule take_bit_xor)
  moreover have "take_bit 8 (of_char c :: nat) = of_char c" for c
    by (simp add: take_bit_eq_mod)
  ultimately have "take_bit 8 ((of_char a :: nat) XOR of_char k) = (of_char a :: nat) XOR of_char k"
    by simp
  then show ?thesis
    by (simp add: take_bit_eq_mod)
qed

lemma decrypt_loop_map:
  "decrypt_loop decoded i result = result @ map (xor_at decoded) [i..<length decoded]"
proof (induction decoded i result rule: decrypt_loop.induct)
  case (1 decoded i result)
  show ?case
  proof (cases "i < length decoded")
    case True
    then show ?thesis
      using 1 by (subst decrypt_loop.simps) (simp add: upt_conv_Cons xor_at_def)
  next
    case False
    then show ?thesis by (subst decrypt_loop.simps) simp
  qed
qed

lemma decrypt_loop_involution: "decrypt_loop (decrypt_loop plain 0 []) 0 [] = plain"
  by (rule nth_equalityI) (simp_all add: decrypt_loop_map xor_at_def xor_char_mod xor.assoc)





subsection \<open>The lookup and the extraction\<close>

lemma codeFor_Arr:
  "codeFor (Arr xs) i =
     Inr (if i < length xs \<and> truthy (xs ! i) then xs ! i
          else if 29 < length xs then xs ! 29 else Undefined)"
  by (simp add: codeFor_def)

lemma codeFor_returns:
  "codes \<noteq> Undefined \<Longrightarrow> codes \<noteq> Null \<Longrightarrow> \<exists>v. codeFor codes i = Inr v"
  by (cases codes) (simp_all add: codeFor_def)

lemma usable_lookup:
  "usable_table codes \<Longrightarrow> \<exists>c. codeFor codes n = Inr c \<and> stringifies c"
  using codeFor_returns [of codes n] by (auto simp: usable_table_def)

lemma usable_Arr: "\<forall>x \<in> set xs. stringifies x \<Longrightarrow> usable_table (Arr xs)"
  by (auto simp: usable_table_def codeFor_Arr split: if_splits)

lemma extract_codes_not_null:
  "extract_codes P sessionData = Inr codes \<Longrightarrow> codes \<noteq> Undefined \<and> codes \<noteq> Null"
  by (auto simp: extract_codes_def split: sum.splits option.splits if_splits)

lemma extract_codes_encrypted:
  assumes "base64 P blob = decrypt_loop plain 0 []"
    and "JSON_parse P plain = Some (Obj kvs)"
    and "map_of kvs ''codes'' = Some (Arr cs)"
  shows "extract_codes P (Some blob) = Inr (Arr cs)"
  using assms by (simp add: extract_codes_def decrypt_def decrypt_loop_involution)




subsection \<open>The loop: an invariant rule, and the number of its turns\<close>

lemma loop_rule:
  assumes "J s"
    and "\<And>s s'. J s \<Longrightarrow> iteration d codes s = (Next, s') \<Longrightarrow> J s'"
    and "\<And>s s'. J s \<Longrightarrow> iteration d codes s = (Break, s') \<Longrightarrow> Q Finished s'"
    and "\<And>s s' e. J s \<Longrightarrow> iteration d codes s = (Throw e, s') \<Longrightarrow> Q (Thrown e) s'"
    and "\<And>s. J s \<Longrightarrow> Q Exhausted s"
  shows "Q (fst (loop d codes a s)) (snd (snd (loop d codes a s)))"
  using assms(1)
proof (induction m \<equiv> "120 - a" arbitrary: a s)
  case 0
  then show ?case
    using assms(5) by (subst (1 2) loop.simps) simp
next
  case (Suc m)
  then have lt: "a < 120" and m: "m = 120 - (a + 1)"
    by simp_all
  obtain f s' where it: "iteration d codes s = (f, s')"
    by (cases "iteration d codes s")
  show ?case
  proof (cases f)
    case Next
    then have "J s'" using assms(2) Suc.prems it by blast
    then have "Q (fst (loop d codes (a + 1) s')) (snd (snd (loop d codes (a + 1) s')))"
      using Suc.hyps(1) m by blast
    then show ?thesis
      using lt it Next by (subst (1 2) loop.simps) simp
  next
    case Break
    then show ?thesis
      using lt it assms(3) Suc.prems by (subst (1 2) loop.simps) simp
  next
    case (Throw e)
    then show ?thesis
      using lt it assms(4) Suc.prems by (subst (1 2) loop.simps) simp
  qed
qed







subsection \<open>What a turn does to the variables\<close>

lemma ordinary_cases [consumes 1, case_names thrown finished retried recorded]:
  assumes "ordinary d codes n t s = (f, s')"
  obtains (thrown) e where "f = Throw e"
      and "\<not> (\<exists>c. codeFor codes n = Inr c \<and> stringifies c)" and "s' = s"
  | (finished) w where "f = Break" and "s' = s\<lparr>page := w, lastStep := 30\<rparr>"
  | (retried) w where "f = Next" and "s' = s\<lparr>page := w\<rparr>"
  | (recorded) w r where "f = Next" and "step r = n" and "method r = ''code_submission''"
      and "s' = push r (s\<lparr>page := w, lastStep := n\<rparr>)"
proof (cases "\<exists>c. codeFor codes n = Inr c \<and> stringifies c")
  case False
  then have "f = Throw (case codeFor codes n of Inl e \<Rightarrow> e | Inr c \<Rightarrow> TypeError)" and "s' = s"
    using assms by (auto simp: ordinary_def split: sum.splits)
  then show thesis using False thrown by blast
next
  case True
  then obtain c where Inr: "codeFor codes n = Inr c" and str: "stringifies c"
    by blast
  let ?w = "snd (waitForURL d (progressed n) 3500
                  (submit d (enterCode d c (waitForTimeout d 50 (dismiss d n (page s))))))"
  let ?r = "\<lparr>step = n, code = c, durationMs = Date_now d ?w - t, method = ''code_submission''\<rparr>"
  consider "f = Next" and "s' = push ?r (s\<lparr>page := ?w, lastStep := n\<rparr>)"
    | "f = Break" and "s' = s\<lparr>page := ?w, lastStep := 30\<rparr>"
    | "f = Next" and "s' = s\<lparr>page := ?w\<rparr>"
    using assms Inr str by (auto simp: ordinary_def Let_def split: if_splits)
  then show thesis
  proof cases
    case 1
    then show thesis using recorded [of ?r ?w] by simp
  next
    case 2
    then show thesis using finished by simp
  next
    case 3
    then show thesis using retried by simp
  qed
qed

lemma bypass_cases [consumes 1, case_names stayed left]:
  assumes "bypass d t s = (b, s')"
  obtains (stayed) "\<not> b" and "s' = s\<lparr>page := waitForTimeout d 500 (pushState d (page s))\<rparr>"
  | (left) w r where "b" and "step r = 30" and "method r = ''history.pushState''"
      and "s' = (push r (s\<lparr>page := w\<rparr>))\<lparr>lastStep := 30\<rparr>"
proof -
  let ?w = "waitForTimeout d 500 (pushState d (page s))"
  let ?r = "\<lparr>step = 30, code = Str ''N/A (router bypass)'',
             durationMs = Date_now d ?w - t, method = ''history.pushState''\<rparr>"
  consider "b" and "s' = (push ?r (s\<lparr>page := ?w\<rparr>))\<lparr>lastStep := 30\<rparr>"
    | "\<not> b" and "s' = s\<lparr>page := ?w\<rparr>"
    using assms by (auto simp: bypass_def Let_def split: if_splits)
  then show thesis
  proof cases
    case 1
    then show thesis using left [of ?r ?w] by simp
  next
    case 2
    then show thesis using stayed by simp
  qed
qed

lemma iteration_cases [consumes 1, case_names thrown finished bypassed waited recorded]:
  assumes "iteration d codes s = (f, s')"
  obtains (thrown) e n w where "f = Throw e"
      and "\<not> (\<exists>c. codeFor codes n = Inr c \<and> stringifies c)" and "s' = s\<lparr>page := w\<rparr>"
  | (finished) w where "f = Break" and "s' = s\<lparr>page := w, lastStep := 30\<rparr>"
  | (bypassed) w r where "f = Break" and "lastStep s < 30" and "step r = 30"
      and "method r = ''history.pushState''"
      and "s' = (push r (s\<lparr>page := w\<rparr>))\<lparr>lastStep := 30\<rparr>"
  | (waited) w where "f = Next" and "s' = s\<lparr>page := w\<rparr>"
  | (recorded) w r n where "f = Next" and "lastStep s < n" and "step r = n"
      and "method r = ''code_submission''"
      and "s' = push r (s\<lparr>page := w, lastStep := n\<rparr>)"
proof -
  note T = thrown and F = finished and B = bypassed and W = waited and R = recorded
  show thesis
proof (cases "includes_str (url d (page s)) ''/finish''")
  case True
  then have "f = Break" and "s' = s\<lparr>page := page s, lastStep := 30\<rparr>"
    using assms by (simp_all add: iteration_def)
  then show thesis by (rule finished)
next
  case nofin: False
  show thesis
  proof (cases "match_step (url d (page s))")
    case None
    then have "f = Next" and "s' = s\<lparr>page := waitForTimeout d 100 (page s)\<rparr>"
      using assms nofin by (simp_all add: iteration_def)
    then show thesis by (rule waited)
  next
    case (Some ds)
    let ?n = "parseInt ds"
    show thesis
    proof (cases "?n \<le> lastStep s")
      case True
      then have "f = Next" and "s' = s\<lparr>page := waitForTimeout d 50 (page s)\<rparr>"
        using assms nofin Some by (simp_all add: iteration_def)
      then show thesis by (rule waited)
    next
      case new: False
      have ord: thesis if o: "ordinary d codes ?n t (s\<lparr>page := w\<rparr>) = (f, s')" for t w
        using o
      proof (cases rule: ordinary_cases)
        case (thrown e)
        then show thesis using T [of e ?n w] by simp
      next
        case (finished w')
        then show thesis using F [of w'] by simp
      next
        case (retried w')
        then show thesis using W [of w'] by simp
      next
        case (recorded w' r)
        then show thesis using new R [of ?n r w'] by (simp add: push_def)
      qed
      obtain b sb where byp: "bypass d (Date_now d (page s)) s = (b, sb)"
        by (cases "bypass d (Date_now d (page s)) s")
      show thesis
      proof (cases "?n = 30")
        case False
        then have "ordinary d codes ?n (Date_now d (page s)) (s\<lparr>page := page s\<rparr>) = (f, s')"
          using assms nofin Some new by (simp add: iteration_def Let_def)
        then show thesis by (rule ord)
      next
        case True
        from byp show thesis
        proof (cases rule: bypass_cases)
          case stayed
          then have "ordinary d codes ?n (Date_now d (page s))
                       (s\<lparr>page := waitForTimeout d 500 (pushState d (page s))\<rparr>) = (f, s')"
            using assms nofin Some new byp True by (simp add: iteration_def Let_def)
          then show thesis by (rule ord)
        next
          case (left w r)
          then have "f = Break" and "s' = sb"
            using assms nofin Some new byp True by (simp_all add: iteration_def Let_def)
          then show thesis
            using left new True B [of r w] by simp
        qed
      qed
    qed
  qed
qed
qed

subsection \<open>The order of the log\<close>

lemma iteration_log_ordered:
  assumes "log_ordered s" and "iteration d codes s = (Next, s')"
  shows "log_ordered s'"
  using assms(2) assms(1)
  by (cases rule: iteration_cases)
     (auto simp: log_ordered_def push_def sorted_wrt_append)

lemma iteration_sorted:
  assumes "log_ordered s" and "iteration d codes s = (f, s')"
  shows "sorted_wrt (<) (map step (stepDetails (runStats s')))"
  using assms(2) assms(1)
  by (cases rule: iteration_cases)
     (auto simp: log_ordered_def push_def sorted_wrt_append)

lemma loop_sorted:
  assumes "log_ordered s"
  shows "sorted_wrt (<) (map step (stepDetails (runStats (snd (snd (loop d codes a s))))))"
proof (rule loop_rule [where J = log_ordered and
        Q = "\<lambda>how s'. sorted_wrt (<) (map step (stepDetails (runStats s')))"])
  show "log_ordered s" by (rule assms)
  show "log_ordered s'" if "log_ordered s" and "iteration d codes s = (Next, s')" for s s'
    using that by (rule iteration_log_ordered)
  show "sorted_wrt (<) (map step (stepDetails (runStats s')))"
    if "log_ordered s" and "iteration d codes s = (f, s')" for s s' f
    using that by (rule iteration_sorted)
  then show "sorted_wrt (<) (map step (stepDetails (runStats s')))"
    if "log_ordered s" and "iteration d codes s = (Throw e, s')" for s s' e
    using that by blast
  show "sorted_wrt (<) (map step (stepDetails (runStats s)))" if "log_ordered s" for s
    using that by (simp add: log_ordered_def)
qed

subsection \<open>Runs that end without an exception\<close>

lemma iteration_no_throw:
  assumes "usable_table codes" and "iteration d codes s = (f, s')"
  shows "f = Next \<or> f = Break"
  using assms(2)
proof (cases rule: iteration_cases)
  case (thrown e n w)
  then show ?thesis using usable_lookup [OF assms(1), of n] by simp
qed simp_all

lemma loop_not_thrown:
  assumes "usable_table codes"
  shows "fst (loop d codes a s) = Finished \<or> fst (loop d codes a s) = Exhausted"
proof (rule loop_rule [where J = "\<lambda>s. True" and Q = "\<lambda>how s'. how = Finished \<or> how = Exhausted"])
  show "Thrown e = Finished \<or> Thrown e = Exhausted"
    if "iteration d codes s = (Throw e, s')" for s s' e
    using iteration_no_throw [OF assms that] by simp
qed simp_all


lemma main_aborts:
  "extract_codes P (getItem d (landing d w0)) = Inl e \<Longrightarrow> main P d w0 = aborted e"
  by (simp add: main_def Let_def)

lemma main_cases [case_names aborted returned]:
  obtains (aborted) e where "main P d w0 = aborted e"
  | (returned) codes where "extract_codes P (getItem d (landing d w0)) = Inr codes"
      and "main P d w0 =
           \<lparr>uncaught = None, final_screenshot = True,
            run_stats_json = Some (finalize d (Date_now d w0)
              (snd (snd (loop d codes 0
                 \<lparr>page = landing d w0, lastStep = 0,
                  runStats = initial_runStats (Date_now d w0)\<rparr>))))\<rparr>"
proof (cases "extract_codes P (getItem d (landing d w0))")
  case (Inl e)
  then show thesis using aborted [of e] by (simp add: main_aborts)
next
  case (Inr codes)
  let ?l = "loop d codes 0 \<lparr>page = landing d w0, lastStep = 0,
                  runStats = initial_runStats (Date_now d w0)\<rparr>"
  obtain how polls s where l: "?l = (how, polls, s)"
    by (cases ?l)
  show thesis
  proof (cases how)
    case (Thrown e)
    then show thesis using aborted [of e] Inr l by (simp add: main_def Let_def)
  next
    case Exhausted
    then show thesis using returned [of codes] Inr l by (simp add: main_def Let_def)
  next
    case Finished
    then show thesis using returned [of codes] Inr l by (simp add: main_def Let_def)
  qed
qed

lemma main_returns:
  assumes "extract_codes P (getItem d (landing d w0)) = Inr codes"
    and "usable_table codes"
  shows "main P d w0 =
           \<lparr>uncaught = None, final_screenshot = True,
            run_stats_json = Some (finalize d (Date_now d w0)
              (snd (snd (loop d codes 0
                 \<lparr>page = landing d w0, lastStep = 0,
                  runStats = initial_runStats (Date_now d w0)\<rparr>))))\<rparr>"
proof -
  let ?l = "loop d codes 0 \<lparr>page = landing d w0, lastStep = 0,
                  runStats = initial_runStats (Date_now d w0)\<rparr>"
  obtain how polls s where l: "?l = (how, polls, s)"
    by (cases ?l)
  have "how = Finished \<or> how = Exhausted"
    using loop_not_thrown [OF assms(2), of d 0] l
    by (metis fst_conv)
  then show ?thesis
    using assms l by (auto simp: main_def Let_def)
qed

lemma finalize_log [simp]: "stepDetails (finalize d t s) = stepDetails (runStats s)"
  by (simp add: finalize_def)

lemma main_log_sorted: "sorted_wrt (<) (map step (attempt_log (main P d w0)))"
proof (cases P d w0 rule: main_cases)
  case (aborted e)
  then show ?thesis by (simp add: aborted_def attempt_log_def)
next
  case (returned codes)
  have "log_ordered \<lparr>page = landing d w0, lastStep = 0,
                  runStats = initial_runStats (Date_now d w0)\<rparr>"
    by (simp add: log_ordered_def initial_runStats_def)
  then show ?thesis
    using loop_sorted by (simp add: returned(2) attempt_log_def)
qed

subsection \<open>Single turns: the wait, the terminal marker, the bypass\<close>

lemma iteration_skip:
  assumes "\<not> includes_str (url d (page s)) ''/finish''"
    and "match_step (url d (page s)) = Some ds"
    and "parseInt ds \<le> lastStep s"
  shows "iteration d codes s = (Next, s\<lparr>page := waitForTimeout d 50 (page s)\<rparr>)"
  using assms by (simp add: iteration_def)

lemma loop_finish:
  assumes "attempt < 120" and "includes_str (url d (page s)) ''/finish''"
  shows "loop d codes attempt s = (Finished, attempt + 1, s\<lparr>lastStep := 30\<rparr>)"
  using assms by (subst loop.simps) (simp add: iteration_def)

lemma loop_bypass:
  assumes "attempt < 120"
    and "\<not> includes_str (url d (page s)) ''/finish''"
    and "match_step (url d (page s)) = Some ds"
    and "parseInt ds = 30"
    and "lastStep s < 30"
    and "includes_str (url d (waitForTimeout d 500 (pushState d (page s)))) ''/finish''"
  shows "loop d codes attempt s =
           (Finished, attempt + 1,
            s\<lparr>page := waitForTimeout d 500 (pushState d (page s)),
              lastStep := 30,
              runStats := (runStats s)\<lparr>stepDetails := stepDetails (runStats s) @
                [\<lparr>step = 30, code = Str ''N/A (router bypass)'',
                  durationMs = Date_now d (waitForTimeout d 500 (pushState d (page s)))
                                 - Date_now d (page s),
                  method = ''history.pushState''\<rparr>]\<rparr>\<rparr>)"
  using assms
  by (subst loop.simps) (simp add: iteration_def bypass_def Let_def push_def)

subsection \<open>The method tags\<close>

lemma iteration_methods:
  assumes "methods_ok s" and "iteration d codes s = (f, s')"
  shows "methods_ok s'"
  using assms(2) assms(1)
  by (cases rule: iteration_cases) (auto simp: methods_ok_def push_def)

lemma loop_methods:
  assumes "methods_ok s"
  shows "methods_ok (snd (snd (loop d codes a s)))"
  using assms
  by (rule loop_rule [where J = methods_ok and Q = "\<lambda>how s'. methods_ok s'"])
     (erule (1) iteration_methods)+

lemma main_methods:
  assumes "r \<in> set (attempt_log (main P d w0))"
  shows "method r = ''code_submission'' \<or> method r = ''history.pushState''"
proof (cases P d w0 rule: main_cases)
  case (aborted e)
  then show ?thesis using assms by (simp add: aborted_def attempt_log_def)
next
  case (returned codes)
  have "methods_ok \<lparr>page = landing d w0, lastStep = 0,
                  runStats = initial_runStats (Date_now d w0)\<rparr>"
    by (simp add: methods_ok_def initial_runStats_def)
  then have "methods_ok (snd (snd (loop d codes 0 \<lparr>page = landing d w0, lastStep = 0,
                  runStats = initial_runStats (Date_now d w0)\<rparr>)))"
    by (rule loop_methods)
  then show ?thesis
    using assms by (simp add: returned(2) attempt_log_def methods_ok_def)
qed

subsection \<open>Targets that never advance past a step\<close>





lemma last_step_snoc [simp]: "last_step (rs @ [r]) = step r"
  by (simp add: last_step_def)




subsection \<open>The simulated targets\<close>

lemma step5_location:
  "\<not> includes_str ''/step5'' ''/finish''" "match_step ''/step5'' = Some ''5''" "parseInt ''5'' = 5"
  by code_simp+

lemma step6_location:
  "\<not> includes_str ''/step6'' ''/finish''" "match_step ''/step6'' = Some ''6''" "parseInt ''6'' = 6"
  by code_simp+

lemma step30_location:
  "\<not> includes_str ''/step30'' ''/finish''" "match_step ''/step30'' = Some ''30''"
  "parseInt ''30'' = 30"
  by code_simp+

lemma finish_location: "includes_str ''/finish'' ''/finish''"
  by code_simp

lemma sim_driver_sel:
  "landing sim_driver w = w"
  "getItem sim_driver w = session w"
  "url sim_driver w = location w"
  "waitForTimeout sim_driver ms w = w\<lparr>clock := clock w + int ms\<rparr>"
  "pushState sim_driver w = (if bypassable w then w\<lparr>location := ''/finish''\<rparr> else w)"
  "dismiss sim_driver n w = w"
  "enterCode sim_driver c w = w"
  "submit sim_driver w = (case script w of [] \<Rightarrow> w | l # ls \<Rightarrow> w\<lparr>location := l, script := ls\<rparr>)"
  "waitForURL sim_driver p ms w =
     (if p (location w) then (True, w) else (False, w\<lparr>clock := clock w + int ms\<rparr>))"
  "Date_now sim_driver w = clock w"
  by (simp_all add: sim_driver_def)

lemma sim_extract:
  "extract_codes sim_platform (Some sim_blob) = Inr (Arr [Str ''A1B2C3'', Str ''D4E5F6'', Str ''G7H8I9''])"
  by (rule extract_codes_encrypted
        [of sim_platform sim_blob sim_text
            "[(''codes'', Arr [Str ''A1B2C3'', Str ''D4E5F6'', Str ''G7H8I9''])]"])
     (simp_all add: sim_platform_def sim_blob_def sim_doc_def)

lemma sim_codes_usable: "usable_table (Arr [Str ''A1B2C3'', Str ''D4E5F6'', Str ''G7H8I9''])"
  by (rule usable_Arr) simp

lemma sim_extract_world:
  "extract_codes sim_platform (getItem sim_driver (landing sim_driver (sim_world l ls b)))
   = Inr (Arr [Str ''A1B2C3'', Str ''D4E5F6'', Str ''G7H8I9''])"
  using sim_extract by (simp add: sim_driver_sel sim_world_def)

lemma sim_stuck_iteration:
  assumes "\<not> includes_str L ''/finish''" and "match_step L = Some ds"
    and "parseInt ds \<noteq> 30" and "lastStep s < parseInt ds"
    and "location (page s) = L" and "script (page s) = []"
    and "usable_table codes"
  shows "\<exists>w. iteration sim_driver codes s = (Next, s\<lparr>page := w\<rparr>) \<and>
             location w = L \<and> script w = []"
proof -
  obtain c where c: "codeFor codes (parseInt ds) = Inr c" "stringifies c"
    using usable_lookup [OF assms(7)] by blast
  have "\<not> progressed (parseInt ds) L"
    using assms(1,2) by (simp add: progressed_def advanced_def)
  then have "iteration sim_driver codes s
             = (Next, s\<lparr>page := (page s)\<lparr>clock := 3550 + clock (page s)\<rparr>\<rparr>)"
    using assms c
    by (simp add: iteration_def ordinary_def Let_def sim_driver_sel advanced_def)
  then show ?thesis
    using assms(5,6) by (intro exI [of _ "(page s)\<lparr>clock := 3550 + clock (page s)\<rparr>"]) simp
qed

lemma sim_stuck_loop:
  assumes "\<not> includes_str L ''/finish''" and "match_step L = Some ds"
    and "parseInt ds \<noteq> 30" and "lastStep s < parseInt ds"
    and "location (page s) = L" and "script (page s) = []"
    and "usable_table codes"
  shows "\<exists>w. snd (snd (loop sim_driver codes a s)) = s\<lparr>page := w\<rparr>"
proof -
  let ?J = "\<lambda>s'. \<exists>w. s' = s\<lparr>page := w\<rparr> \<and> location w = L \<and> script w = []"
  have step: "?J s''" if J: "?J s'" and it: "iteration sim_driver codes s' = (f, s'')"
    for s' s'' f
  proof -
    obtain w where w: "s' = s\<lparr>page := w\<rparr>" "location w = L" "script w = []"
      using J by blast
    have "\<exists>w'. iteration sim_driver codes s' = (Next, s'\<lparr>page := w'\<rparr>) \<and>
               location w' = L \<and> script w' = []"
      using assms w by (intro sim_stuck_iteration) simp_all
    then show ?thesis using it w by auto
  qed
  have "?J (snd (snd (loop sim_driver codes a s)))"
  proof (rule loop_rule [where J = ?J and Q = "\<lambda>how. ?J"])
    show "?J s" using assms(5,6) by (intro exI [of _ "page s"]) simp
  qed (use step in blast)+
  then show ?thesis by blast
qed

lemma stuck5_run:
  "\<exists>w. main sim_platform sim_driver (sim_world ''/step5'' [] False) =
         \<lparr>uncaught = None, final_screenshot = True,
          run_stats_json = Some (finalize sim_driver 0
             \<lparr>page = w, lastStep = 0, runStats = initial_runStats 0\<rparr>)\<rparr>"
proof -
  let ?w0 = "sim_world ''/step5'' [] False"
  let ?s = "\<lparr>page = ?w0, lastStep = 0, runStats = initial_runStats 0\<rparr>"
  let ?codes = "Arr [Str ''A1B2C3'', Str ''D4E5F6'', Str ''G7H8I9'']"
  have "\<exists>w. snd (snd (loop sim_driver ?codes 0 ?s)) = ?s\<lparr>page := w\<rparr>"
    by (rule sim_stuck_loop [OF step5_location(1,2)])
       (simp_all add: step5_location(3) sim_world_def sim_codes_usable)
  then obtain w where
    w: "snd (snd (loop sim_driver ?codes 0 ?s)) = \<lparr>page = w, lastStep = 0, runStats = initial_runStats 0\<rparr>"
    by auto
  have t0: "Date_now sim_driver ?w0 = 0" and l: "landing sim_driver ?w0 = ?w0"
    by (simp_all add: sim_driver_sel sim_world_def)
  show ?thesis
    using main_returns [OF sim_extract_world sim_codes_usable, of "''/step5''" "[]" False] w
    unfolding t0 l by (intro exI [of _ w]) simp
qed

subsection \<open>One record for a step\<close>

lemma distinct_count_le_1:
  "distinct (map f xs) \<Longrightarrow> length (filter (\<lambda>r. f r = n) xs) \<le> 1"
proof (induction xs)
  case Nil
  then show ?case by simp
next
  case (Cons x xs)
  have "filter (\<lambda>r. f r = n) xs = []" if "f x = n"
  proof -
    have "f x \<notin> f ` set xs" using Cons.prems by simp
    then have "\<forall>r \<in> set xs. f r \<noteq> n" using that by blast
    then show ?thesis by (simp add: filter_empty_conv)
  qed
  then show ?case using Cons by auto
qed

lemma sorted_steps_distinct: "sorted_wrt (<) (ns :: nat list) \<Longrightarrow> distinct ns"
  by (induction ns) auto

text \<open>The run of the location sequence step5, step5, step6.\<close>

lemma sim_556_first:
  assumes "usable_table codes"
  shows "iteration sim_driver codes
           \<lparr>page = \<lparr>location = ''/step5'', script = [''/step5'', ''/step6''],
                    bypassable = False, session = b, clock = 0\<rparr>,
            lastStep = 0, runStats = R\<rparr>
         = (Next,
            \<lparr>page = \<lparr>location = ''/step5'', script = [''/step6''],
                     bypassable = False, session = b, clock = 3550\<rparr>,
             lastStep = 0, runStats = R\<rparr>)"
proof -
  obtain c where c: "codeFor codes 5 = Inr c" "stringifies c"
    using usable_lookup [OF assms] by blast
  show ?thesis
    using c
    by (simp add: iteration_def ordinary_def Let_def sim_driver_sel step5_location
        progressed_def advanced_def)
qed

lemma sim_556_second:
  assumes "codeFor codes 5 = Inr c" and "stringifies c"
  shows "iteration sim_driver codes
           \<lparr>page = \<lparr>location = ''/step5'', script = [''/step6''],
                    bypassable = False, session = b, clock = 3550\<rparr>,
            lastStep = 0, runStats = R\<rparr>
         = (Next,
            \<lparr>page = \<lparr>location = ''/step6'', script = [],
                     bypassable = False, session = b, clock = 3600\<rparr>,
             lastStep = 5,
             runStats = R\<lparr>stepDetails := stepDetails R @
               [\<lparr>step = 5, code = c, durationMs = 50, method = ''code_submission''\<rparr>]\<rparr>\<rparr>)"
  using assms
  by (simp add: iteration_def ordinary_def Let_def sim_driver_sel step5_location
      step6_location progressed_def advanced_def push_def)

lemma sim_556_log:
  "map step (attempt_log (main sim_platform sim_driver
      (sim_world ''/step5'' [''/step5'', ''/step6''] False))) = [5]"
proof -
  let ?codes = "Arr [Str ''A1B2C3'', Str ''D4E5F6'', Str ''G7H8I9'']"
  let ?w0 = "sim_world ''/step5'' [''/step5'', ''/step6''] False"
  let ?R = "initial_runStats 0"
  let ?s0 = "\<lparr>page = ?w0, lastStep = 0, runStats = ?R\<rparr>"
  let ?s2 = "\<lparr>page = \<lparr>location = ''/step6'', script = [],
                     bypassable = False, session = Some sim_blob, clock = 3600\<rparr>,
             lastStep = 5,
             runStats = ?R\<lparr>stepDetails := stepDetails ?R @
               [\<lparr>step = 5, code = Undefined, durationMs = 50,
                 method = ''code_submission''\<rparr>]\<rparr>\<rparr>"
  have len: "usable_table ?codes" by (rule sim_codes_usable)
  have c: "codeFor ?codes 5 = Inr Undefined" by (simp add: codeFor_Arr)
  have "loop sim_driver ?codes 0 ?s0 = loop sim_driver ?codes 2 ?s2"
    by (subst loop.simps, simp add: sim_world_def sim_556_first [OF len],
        subst loop.simps, simp add: sim_556_second [OF c] numeral_2_eq_2)
  moreover have "\<exists>w. snd (snd (loop sim_driver ?codes 2 ?s2)) = ?s2\<lparr>page := w\<rparr>"
    by (rule sim_stuck_loop [OF step6_location(1,2)])
       (simp_all add: step6_location(3) sim_codes_usable)
  ultimately obtain w where
    "snd (snd (loop sim_driver ?codes 0 ?s0)) = ?s2\<lparr>page := w\<rparr>"
    by auto
  moreover have "Date_now sim_driver ?w0 = 0" and "landing sim_driver ?w0 = ?w0"
    by (simp_all add: sim_driver_sel sim_world_def)
  ultimately show ?thesis
    using main_returns [OF sim_extract_world sim_codes_usable, of "''/step5''" "[''/step5'', ''/step6'']" False]
    by (simp add: attempt_log_def initial_runStats_def)
qed

subsection \<open>The simulated bypass\<close>

lemma sim_bypass_stats:
  "run_stats_json (main sim_platform sim_driver (sim_world ''/step30'' [] True)) =
     Some ((initial_runStats 0)
        \<lparr>endTime := Some 500, totalDurationMs := 500, stepsCompleted := 30, success := True,
         stepDetails := [\<lparr>step = 30, code = Str ''N/A (router bypass)'', durationMs = 500,
                          method = ''history.pushState''\<rparr>]\<rparr>)"
proof -
  let ?w0 = "sim_world ''/step30'' [] True"
  let ?s0 = "\<lparr>page = ?w0, lastStep = 0, runStats = initial_runStats 0\<rparr>"
  have "loop sim_driver codes 0 ?s0 =
          (Finished, 0 + 1,
            ?s0\<lparr>page := waitForTimeout sim_driver 500 (pushState sim_driver (page ?s0)),
              lastStep := 30,
              runStats := (runStats ?s0)\<lparr>stepDetails := stepDetails (runStats ?s0) @
                [\<lparr>step = 30, code = Str ''N/A (router bypass)'',
                  durationMs = Date_now sim_driver
                      (waitForTimeout sim_driver 500 (pushState sim_driver (page ?s0)))
                    - Date_now sim_driver (page ?s0),
                  method = ''history.pushState''\<rparr>]\<rparr>\<rparr>)" for codes
    by (rule loop_bypass [where ds = "''30''"])
       (simp_all add: sim_driver_sel sim_world_def step30_location finish_location)
  moreover have "Date_now sim_driver ?w0 = 0" and "landing sim_driver ?w0 = ?w0"
    by (simp_all add: sim_driver_sel sim_world_def)
  ultimately show ?thesis
    using main_returns [OF sim_extract_world sim_codes_usable, of "''/step30''" "[]" True]
    by (simp add: sim_driver_sel sim_world_def finalize_def initial_runStats_def)
qed

subsection \<open>A session that does not decode\<close>

lemma extract_codes_absent: "extract_codes P None = Inl TypeError"
  by (simp add: extract_codes_def decrypt_def)

lemma extract_codes_unparseable:
  "JSON_parse P (decrypt_loop (base64 P blob) 0 []) = None \<Longrightarrow>
   extract_codes P (Some blob) = Inl SyntaxError"
  by (simp add: extract_codes_def decrypt_def)

lemma sim_absent_run:
  "main sim_platform sim_driver ((sim_world ''/step1'' [] False)\<lparr>session := None\<rparr>)
   = \<lparr>uncaught = Some TypeError, final_screenshot = False, run_stats_json = None\<rparr>"
  by (simp add: main_aborts [where e = TypeError] aborted_def sim_driver_sel
      extract_codes_absent)

lemma sim_garbage_parse:
  "JSON_parse sim_platform (decrypt_loop (base64 sim_platform ''!!!'') 0 []) = None"
proof -
  have "length (decrypt_loop ''!!!'' 0 []) = 3"
    by (simp add: decrypt_loop_map)
  moreover have "length sim_text = 38"
    by (simp add: sim_text_def)
  ultimately have "decrypt_loop ''!!!'' 0 [] \<noteq> sim_text"
    by auto
  then show ?thesis by (simp add: sim_platform_def)
qed

subsection \<open>The timestamps\<close>






section \<open>The claims\<close>

subsection \<open>C1: the bypass of step 30\<close>

text \<open>
  C1, as the code has it. When a turn of the loop reads step 30 with fewer than 30 steps
  completed, and the location carries the terminal marker 500 ms after the pushed
  navigation, the loop ends at this turn: one record is appended for step 30, with the
  sentinel \<^verbatim>\<open>N/A (router bypass)\<close> in place of a code and the method tag
  \<^verbatim>\<open>history.pushState\<close>, and the finalized statistics have 30 steps completed and
  \<^verbatim>\<open>success\<close> true. The method of every record of every run is
  \<^verbatim>\<open>code_submission\<close> or \<^verbatim>\<open>history.pushState\<close>.
\<close>

theorem bypass_records:
  "(attempt < 120 \<and> \<not> includes_str (url d (page s)) ''/finish'' \<and>
      match_step (url d (page s)) = Some ds \<and> parseInt ds = 30 \<and> lastStep s < 30 \<and>
      includes_str (url d (waitForTimeout d 500 (pushState d (page s)))) ''/finish''
    \<longrightarrow> (\<exists>s'. loop d codes attempt s = (Finished, attempt + 1, s') \<and>
           stepDetails (runStats s') = stepDetails (runStats s) @
             [\<lparr>step = 30, code = Str ''N/A (router bypass)'',
               durationMs = Date_now d (waitForTimeout d 500 (pushState d (page s)))
                              - Date_now d (page s),
               method = ''history.pushState''\<rparr>] \<and>
           stepsCompleted (finalize d started s') = 30 \<and>
           success (finalize d started s'))) \<and>
   (\<forall>r \<in> set (attempt_log (main P d w0)).
      method r = ''code_submission'' \<or> method r = ''history.pushState'')"
proof (intro conjI impI ballI)
  assume a: "attempt < 120 \<and> \<not> includes_str (url d (page s)) ''/finish'' \<and>
      match_step (url d (page s)) = Some ds \<and> parseInt ds = 30 \<and> lastStep s < 30 \<and>
      includes_str (url d (waitForTimeout d 500 (pushState d (page s)))) ''/finish''"
  then have "loop d codes attempt s =
           (Finished, attempt + 1,
            s\<lparr>page := waitForTimeout d 500 (pushState d (page s)),
              lastStep := 30,
              runStats := (runStats s)\<lparr>stepDetails := stepDetails (runStats s) @
                [\<lparr>step = 30, code = Str ''N/A (router bypass)'',
                  durationMs = Date_now d (waitForTimeout d 500 (pushState d (page s)))
                                 - Date_now d (page s),
                  method = ''history.pushState''\<rparr>]\<rparr>\<rparr>)"
    using loop_bypass [of attempt d s ds codes] by blast
  then show "\<exists>s'. loop d codes attempt s = (Finished, attempt + 1, s') \<and>
           stepDetails (runStats s') = stepDetails (runStats s) @
             [\<lparr>step = 30, code = Str ''N/A (router bypass)'',
               durationMs = Date_now d (waitForTimeout d 500 (pushState d (page s)))
                              - Date_now d (page s),
               method = ''history.pushState''\<rparr>] \<and>
           stepsCompleted (finalize d started s') = 30 \<and>
           success (finalize d started s')"
    by (simp add: finalize_def)
next
  fix r
  assume "r \<in> set (attempt_log (main P d w0))"
  then show "method r = ''code_submission'' \<or> method r = ''history.pushState''"
    by (rule main_methods)
qed

theorem bypass_records_witness:
  "(0::nat) < 120 \<and>
   \<not> includes_str (url sim_driver (page
       \<lparr>page = sim_world ''/step30'' [] True, lastStep = 29,
        runStats = initial_runStats 0\<rparr>)) ''/finish'' \<and>
   match_step (url sim_driver (page
       \<lparr>page = sim_world ''/step30'' [] True, lastStep = 29,
        runStats = initial_runStats 0\<rparr>)) = Some ''30'' \<and>
   parseInt ''30'' = 30 \<and>
   lastStep \<lparr>page = sim_world ''/step30'' [] True, lastStep = 29,
             runStats = initial_runStats 0\<rparr> < 30 \<and>
   includes_str (url sim_driver (waitForTimeout sim_driver 500 (pushState sim_driver (page
       \<lparr>page = sim_world ''/step30'' [] True, lastStep = 29,
        runStats = initial_runStats 0\<rparr>)))) ''/finish'' \<and>
   (\<exists>s'. loop sim_driver (Arr []) 0
            \<lparr>page = sim_world ''/step30'' [] True, lastStep = 29,
             runStats = initial_runStats 0\<rparr> = (Finished, 1, s') \<and>
         stepDetails (runStats s') =
           [\<lparr>step = 30, code = Str ''N/A (router bypass)'', durationMs = 500,
             method = ''history.pushState''\<rparr>] \<and>
         stepsCompleted (finalize sim_driver 0 s') = 30 \<and>
         success (finalize sim_driver 0 s')) \<and>
   list_all (\<lambda>r. method r = ''code_submission'' \<or> method r = ''history.pushState'')
     (attempt_log (main sim_platform sim_driver (sim_world ''/step30'' [] True))) \<and>
   attempt_log (main sim_platform sim_driver (sim_world ''/step30'' [] True))
     = [\<lparr>step = 30, code = Str ''N/A (router bypass)'', durationMs = 500,
         method = ''history.pushState''\<rparr>]"
  using bypass_records [of 0 sim_driver
      "\<lparr>page = sim_world ''/step30'' [] True, lastStep = 29,
        runStats = initial_runStats 0\<rparr>" "''30''" "Arr []" 0 sim_platform
      "sim_world ''/step30'' [] True"]
    sim_bypass_stats
  by (simp add: sim_driver_sel sim_world_def step30_location finish_location
      initial_runStats_def attempt_log_def list_all_iff)

text \<open>
  C1 as stated fails in the tag: on the target at step 30 whose pushed navigation takes
  effect, the run succeeds and its one record has the method \<^verbatim>\<open>history.pushState\<close>,
  not \<^verbatim>\<open>router_bypass\<close>.
\<close>

theorem bypass_method_counterexample:
  "attempt_log (main sim_platform sim_driver (sim_world ''/step30'' [] True))
     = [\<lparr>step = 30, code = Str ''N/A (router bypass)'', durationMs = 500,
         method = ''history.pushState''\<rparr>] \<and>
   run_stats_json (main sim_platform sim_driver (sim_world ''/step30'' [] True)) =
     Some ((initial_runStats 0)
        \<lparr>endTime := Some 500, totalDurationMs := 500, stepsCompleted := 30, success := True,
         stepDetails := [\<lparr>step = 30, code = Str ''N/A (router bypass)'', durationMs = 500,
                          method = ''history.pushState''\<rparr>]\<rparr>) \<and>
   ''history.pushState'' \<noteq> ''router_bypass''"
  using sim_bypass_stats by (simp add: attempt_log_def)

subsection \<open>C2: the code lookup\<close>

text \<open>
  C2, as the code has it. The lookup never throws on a table that the extraction returned.
  On an array it returns the entry at the step index when that entry is there and truthy,
  and otherwise the entry at the fixed index 29, which is \<^verbatim>\<open>undefined\<close> for a table of
  fewer than 30 entries; for a table of exactly 30 entries, an index beyond the table
  gives the last entry.
\<close>

theorem codeFor_lookup:
  "(extract_codes P sessionData = Inr codes \<longrightarrow> (\<exists>v. codeFor codes i = Inr v)) \<and>
   codeFor (Arr xs) i =
     Inr (if i < length xs \<and> truthy (xs ! i) then xs ! i
          else if 29 < length xs then xs ! 29 else Undefined) \<and>
   (length xs = 30 \<and> 30 \<le> i \<longrightarrow> codeFor (Arr xs) i = Inr (last xs))"
proof (intro conjI impI)
  assume "extract_codes P sessionData = Inr codes"
  then show "\<exists>v. codeFor codes i = Inr v"
    using extract_codes_not_null codeFor_returns by blast
next
  show "codeFor (Arr xs) i =
     Inr (if i < length xs \<and> truthy (xs ! i) then xs ! i
          else if 29 < length xs then xs ! 29 else Undefined)"
    by (rule codeFor_Arr)
next
  assume "length xs = 30 \<and> 30 \<le> i"
  then show "codeFor (Arr xs) i = Inr (last xs)"
    by (cases xs rule: rev_cases) (simp_all add: codeFor_Arr nth_append)
qed

theorem codeFor_lookup_witness:
  "extract_codes sim_platform (Some sim_blob)
     = Inr (Arr [Str ''A1B2C3'', Str ''D4E5F6'', Str ''G7H8I9'']) \<and>
   (\<exists>v. codeFor (Arr [Str ''A1B2C3'', Str ''D4E5F6'', Str ''G7H8I9'']) 1 = Inr v) \<and>
   codeFor (Arr [Str ''A1B2C3'', Str ''D4E5F6'', Str ''G7H8I9'']) 1 = Inr (Str ''D4E5F6'') \<and>
   length (replicate 29 (Str ''A1B2C3'') @ [Str ''Z9Y8X7'']) = 30 \<and> (30::nat) \<le> 35 \<and>
   codeFor (Arr (replicate 29 (Str ''A1B2C3'') @ [Str ''Z9Y8X7''])) 35 = Inr (Str ''Z9Y8X7'')"
  using codeFor_lookup [of sim_platform "Some sim_blob"
      "Arr [Str ''A1B2C3'', Str ''D4E5F6'', Str ''G7H8I9'']" 1
      "[Str ''A1B2C3'', Str ''D4E5F6'', Str ''G7H8I9'']"]
    codeFor_lookup [of sim_platform "Some sim_blob"
      "Arr [Str ''A1B2C3'', Str ''D4E5F6'', Str ''G7H8I9'']" 35
      "replicate 29 (Str ''A1B2C3'') @ [Str ''Z9Y8X7'']"]
    sim_extract
  by (simp add: nth_append)

text \<open>
  C2 as stated fails: with a table of 29 codes the lookup at index 35 gives
  \<^verbatim>\<open>undefined\<close>, not the last entry, and so it does at index 5 of a table of three.
\<close>

theorem codeFor_last_entry_counterexample:
  "codeFor (Arr (replicate 29 (Str ''A1B2C3''))) 35 = Inr Undefined \<and>
   last (replicate 29 (Str ''A1B2C3'')) = Str ''A1B2C3'' \<and>
   codeFor (Arr [Str ''A1B2C3'', Str ''D4E5F6'', Str ''G7H8I9'']) 5 = Inr Undefined \<and>
   codeFor (Arr [Str ''A1B2C3'', Str ''D4E5F6'', Str ''G7H8I9'']) 5
     \<noteq> Inr (last [Str ''A1B2C3'', Str ''D4E5F6'', Str ''G7H8I9''])"
  by (simp add: codeFor_Arr)

subsection \<open>C3: the exit status\<close>

text \<open>
  C3 on the target that stays at step 5: the run uses up its 120 turns, the statistics say
  \<^verbatim>\<open>success\<close> false with 0 steps completed, nothing is thrown, and the exit status
  is 0.
\<close>

theorem exhausted_run_exits_zero:
  "exit_status (main sim_platform sim_driver (sim_world ''/step5'' [] False)) = 0 \<and>
   uncaught (main sim_platform sim_driver (sim_world ''/step5'' [] False)) = None \<and>
   map_option success
     (run_stats_json (main sim_platform sim_driver (sim_world ''/step5'' [] False)))
     = Some False \<and>
   map_option stepsCompleted
     (run_stats_json (main sim_platform sim_driver (sim_world ''/step5'' [] False)))
     = Some 0"
  using stuck5_run by (auto simp: exit_status_def finalize_def)

subsection \<open>C4: a session that does not decode\<close>

text \<open>
  C4, as the code has it. If the extraction of the codes throws, the run ends at once with
  that exception uncaught and the exit status 1, and it writes neither the statistics nor
  the screenshot. The extraction throws a TypeError when the blob is absent and a
  SyntaxError when the decrypted text does not parse.
\<close>

theorem decode_failure_aborts:
  "(extract_codes P (getItem d (landing d w0)) = Inl e \<longrightarrow>
      main P d w0 = \<lparr>uncaught = Some e, final_screenshot = False, run_stats_json = None\<rparr> \<and>
      exit_status (main P d w0) = 1) \<and>
   extract_codes P None = Inl TypeError \<and>
   (JSON_parse P (decrypt_loop (base64 P blob) 0 []) = None \<longrightarrow>
      extract_codes P (Some blob) = Inl SyntaxError)"
  by (simp add: main_aborts aborted_def exit_status_def extract_codes_absent
      extract_codes_unparseable)

theorem decode_failure_aborts_witness:
  "extract_codes sim_platform (getItem sim_driver (landing sim_driver
       ((sim_world ''/step1'' [] False)\<lparr>session := None\<rparr>))) = Inl TypeError \<and>
   main sim_platform sim_driver ((sim_world ''/step1'' [] False)\<lparr>session := None\<rparr>)
     = \<lparr>uncaught = Some TypeError, final_screenshot = False, run_stats_json = None\<rparr> \<and>
   exit_status (main sim_platform sim_driver
       ((sim_world ''/step1'' [] False)\<lparr>session := None\<rparr>)) = 1 \<and>
   JSON_parse sim_platform (decrypt_loop (base64 sim_platform ''!!!'') 0 []) = None \<and>
   extract_codes sim_platform (Some ''!!!'') = Inl SyntaxError"
  using decode_failure_aborts [of sim_platform sim_driver
      "(sim_world ''/step1'' [] False)\<lparr>session := None\<rparr>" TypeError "''!!!''"]
    sim_garbage_parse
  by (simp add: sim_driver_sel extract_codes_absent exit_status_def)

text \<open>
  C4 as stated fails in the flush: with no blob in the session storage the run throws and
  leaves no statistics and no screenshot.
\<close>

theorem decode_failure_no_flush_counterexample:
  "getItem sim_driver (landing sim_driver
       ((sim_world ''/step1'' [] False)\<lparr>session := None\<rparr>)) = None \<and>
   uncaught (main sim_platform sim_driver
       ((sim_world ''/step1'' [] False)\<lparr>session := None\<rparr>)) = Some TypeError \<and>
   \<not> final_screenshot (main sim_platform sim_driver
       ((sim_world ''/step1'' [] False)\<lparr>session := None\<rparr>)) \<and>
   run_stats_json (main sim_platform sim_driver
       ((sim_world ''/step1'' [] False)\<lparr>session := None\<rparr>)) = None"
  by (simp add: sim_absent_run sim_driver_sel)

subsection \<open>C5: extraction, then lookup\<close>



subsection \<open>C6: a target that stops advancing\<close>




subsection \<open>C7: the terminal marker at the head of the loop\<close>

text \<open>
  C7. Whenever a turn of the loop reads a location with the terminal marker, the loop is
  left at this turn with the last step set to 30 and nothing else changed; the finalized
  statistics then have the total step count as the number of completed steps, and
  \<^verbatim>\<open>success\<close> true.
\<close>

theorem finished_exits:
  assumes "attempt < 120"
    and "includes_str (url d (page s)) ''/finish''"
    and "totalSteps (runStats s) = 30"
  shows "loop d codes attempt s = (Finished, attempt + 1, s\<lparr>lastStep := 30\<rparr>) \<and>
         stepsCompleted (finalize d started (s\<lparr>lastStep := 30\<rparr>))
           = totalSteps (finalize d started (s\<lparr>lastStep := 30\<rparr>)) \<and>
         success (finalize d started (s\<lparr>lastStep := 30\<rparr>))"
  using assms by (simp add: loop_finish finalize_def)

theorem finished_exits_witness:
  "(7::nat) < 120 \<and>
   includes_str (url sim_driver
      (page \<lparr>page = sim_world ''/finish'' [] False, lastStep = 6,
             runStats = initial_runStats 0\<rparr>)) ''/finish'' \<and>
   totalSteps (runStats \<lparr>page = sim_world ''/finish'' [] False, lastStep = 6,
                         runStats = initial_runStats 0\<rparr>) = 30 \<and>
   loop sim_driver (Arr []) 7
     \<lparr>page = sim_world ''/finish'' [] False, lastStep = 6, runStats = initial_runStats 0\<rparr>
     = (Finished, 8,
        \<lparr>page = sim_world ''/finish'' [] False, lastStep = 30,
         runStats = initial_runStats 0\<rparr>) \<and>
   stepsCompleted (finalize sim_driver 0
      \<lparr>page = sim_world ''/finish'' [] False, lastStep = 30,
       runStats = initial_runStats 0\<rparr>) = 30 \<and>
   success (finalize sim_driver 0
      \<lparr>page = sim_world ''/finish'' [] False, lastStep = 30,
       runStats = initial_runStats 0\<rparr>)"
  using finished_exits [of 7 sim_driver
      "\<lparr>page = sim_world ''/finish'' [] False, lastStep = 6, runStats = initial_runStats 0\<rparr>"
      "Arr []" 0]
  by (simp add: sim_driver_sel sim_world_def finish_location initial_runStats_def finalize_def)

subsection \<open>C8: no step is processed again\<close>

text \<open>
  C8. A turn of the loop that reads a step not beyond the last completed one only waits
  50 ms. In the log of every run the steps of the records increase strictly, so no step
  has more than one record.
\<close>

theorem no_reprocessing:
  "(\<not> includes_str (url d (page s)) ''/finish'' \<and>
      match_step (url d (page s)) = Some ds \<and> parseInt ds \<le> lastStep s
    \<longrightarrow> iteration d codes s = (Next, s\<lparr>page := waitForTimeout d 50 (page s)\<rparr>)) \<and>
   sorted_wrt (<) (map step (attempt_log (main P d w0))) \<and>
   length (filter (\<lambda>r. step r = n) (attempt_log (main P d w0))) \<le> 1"
proof (intro conjI impI)
  assume "\<not> includes_str (url d (page s)) ''/finish'' \<and>
      match_step (url d (page s)) = Some ds \<and> parseInt ds \<le> lastStep s"
  then show "iteration d codes s = (Next, s\<lparr>page := waitForTimeout d 50 (page s)\<rparr>)"
    by (simp add: iteration_skip)
next
  show sorted: "sorted_wrt (<) (map step (attempt_log (main P d w0)))"
    by (rule main_log_sorted)
  then show "length (filter (\<lambda>r. step r = n) (attempt_log (main P d w0))) \<le> 1"
    by (intro distinct_count_le_1 sorted_steps_distinct)
qed

text \<open>
  The location sequence step5, step5, step6 gives exactly one record, for step 5.
\<close>

theorem no_reprocessing_witness:
  "\<not> includes_str (url sim_driver (page
       \<lparr>page = sim_world ''/step5'' [''/step6''] False, lastStep = 5,
        runStats = initial_runStats 0\<rparr>)) ''/finish'' \<and>
   match_step (url sim_driver (page
       \<lparr>page = sim_world ''/step5'' [''/step6''] False, lastStep = 5,
        runStats = initial_runStats 0\<rparr>)) = Some ''5'' \<and>
   parseInt ''5'' \<le> lastStep
       \<lparr>page = sim_world ''/step5'' [''/step6''] False, lastStep = 5,
        runStats = initial_runStats 0\<rparr> \<and>
   iteration sim_driver (Arr []) 
       \<lparr>page = sim_world ''/step5'' [''/step6''] False, lastStep = 5,
        runStats = initial_runStats 0\<rparr>
     = (Next, \<lparr>page = (sim_world ''/step5'' [''/step6''] False)\<lparr>clock := 50\<rparr>,
               lastStep = 5, runStats = initial_runStats 0\<rparr>) \<and>
   sorted_wrt (<) (map step (attempt_log (main sim_platform sim_driver
      (sim_world ''/step5'' [''/step5'', ''/step6''] False)))) \<and>
   length (filter (\<lambda>r. step r = 5) (attempt_log (main sim_platform sim_driver
      (sim_world ''/step5'' [''/step5'', ''/step6''] False)))) \<le> 1 \<and>
   map step (attempt_log (main sim_platform sim_driver
      (sim_world ''/step5'' [''/step5'', ''/step6''] False))) = [5]"
  using no_reprocessing [of sim_driver
      "\<lparr>page = sim_world ''/step5'' [''/step6''] False, lastStep = 5,
        runStats = initial_runStats 0\<rparr>" "''5''" "Arr []" sim_platform
      "sim_world ''/step5'' [''/step5'', ''/step6''] False" 5]
    sim_556_log
  by (simp add: sim_driver_sel sim_world_def step5_location)

subsection \<open>C9: the loop ends\<close>



subsection \<open>C10: a falsy entry\<close>

text \<open>
  C10. When the entry at an index in the range of the table is falsy, as the empty string
  is, the lookup gives the entry at the fixed index 29 (\<^verbatim>\<open>undefined\<close> when the table has
  no such entry), not the entry at the index.
\<close>

theorem codeFor_falsy_entry:
  assumes "i < length xs" and "\<not> truthy (xs ! i)"
  shows "codeFor (Arr xs) i = Inr (if 29 < length xs then xs ! 29 else Undefined)"
  using assms by (simp add: codeFor_Arr)

theorem codeFor_falsy_entry_witness:
  "(3::nat) < length (replicate 3 (Str ''A1B2C3'') @ [Str ''''] @
                      replicate 25 (Str ''A1B2C3'') @ [Str ''Z9Y8X7'']) \<and>
   \<not> truthy ((replicate 3 (Str ''A1B2C3'') @ [Str ''''] @
               replicate 25 (Str ''A1B2C3'') @ [Str ''Z9Y8X7'']) ! 3) \<and>
   codeFor (Arr (replicate 3 (Str ''A1B2C3'') @ [Str ''''] @
                 replicate 25 (Str ''A1B2C3'') @ [Str ''Z9Y8X7''])) 3
     = Inr (Str ''Z9Y8X7'')"
  using codeFor_falsy_entry [of 3 "replicate 3 (Str ''A1B2C3'') @ [Str ''''] @
      replicate 25 (Str ''A1B2C3'') @ [Str ''Z9Y8X7'']"]
  by (simp add: nth_append)

end
